theory Spec2Isabelle
  imports Main "HOL-Library.Char_ord" "HOL-Library.List_Lexorder" "HOL-Library.Product_Lexorder"
begin

section \<open>Python strings\<close>

text \<open>
  The merge engine of \<^verbatim>\<open>scripts/sync_proto.py\<close> works on Python \<^verbatim>\<open>str\<close> values, line by
  line. A \<^verbatim>\<open>str\<close> is modelled as a \<^typ>\<open>string\<close>, one \<^typ>\<open>char\<close> for each code point; the
  model therefore covers the texts whose code points are below 256. The character
  classes below are Python's for that range.
\<close>

abbreviation LF :: char where
  "LF \<equiv> CHR 0x0A"

definition isspace :: "char \<Rightarrow> bool" where
  \<comment> \<open>\<^verbatim>\<open>str.isspace\<close>, also the class \<^verbatim>\<open>\s\<close> of \<^verbatim>\<open>re\<close>\<close>
  "isspace c = (c \<in> set [CHR 0x09, CHR 0x0A, CHR 0x0B, CHR 0x0C, CHR 0x0D, CHR 0x1C,
                           CHR 0x1D, CHR 0x1E, CHR 0x1F, CHR 0x20, CHR 0x85, CHR 0xA0])"

definition isword :: "char \<Rightarrow> bool" where
  \<comment> \<open>the class \<^verbatim>\<open>\w\<close> of \<^verbatim>\<open>re\<close> on \<^verbatim>\<open>str\<close>: alphanumeric or underscore\<close>
  "isword c = (let n = (of_char c :: nat) in
     (48 \<le> n \<and> n \<le> 57) \<or> (65 \<le> n \<and> n \<le> 90) \<or> n = 95 \<or> (97 \<le> n \<and> n \<le> 122) \<or>
     n = 170 \<or> n = 178 \<or> n = 179 \<or> n = 181 \<or> n = 185 \<or> n = 186 \<or>
     (188 \<le> n \<and> n \<le> 190) \<or> (192 \<le> n \<and> n \<le> 214) \<or> (216 \<le> n \<and> n \<le> 246) \<or>
     (248 \<le> n \<and> n \<le> 255))"

definition lstrip :: "string \<Rightarrow> string" where
  "lstrip s = dropWhile isspace s"

definition rstrip :: "string \<Rightarrow> string" where
  "rstrip s = rev (dropWhile isspace (rev s))"

definition strip :: "string \<Rightarrow> string" where
  "strip s = lstrip (rstrip s)"

definition rstrip_char :: "char \<Rightarrow> string \<Rightarrow> string" where
  \<comment> \<open>\<^verbatim>\<open>s.rstrip(c)\<close> for a one-character argument\<close>
  "rstrip_char c s = rev (dropWhile (\<lambda>x. x = c) (rev s))"

fun startswith :: "string \<Rightarrow> string \<Rightarrow> bool" where
  "startswith s [] = True"
| "startswith [] (p # ps) = False"
| "startswith (c # cs) (p # ps) = (c = p \<and> startswith cs ps)"

definition endswith :: "string \<Rightarrow> string \<Rightarrow> bool" where
  "endswith s p = startswith (rev s) (rev p)"

fun contains :: "string \<Rightarrow> string \<Rightarrow> bool" where
  \<comment> \<open>\<^verbatim>\<open>p in s\<close>\<close>
  "contains [] p = (p = [])"
| "contains (c # cs) p = (startswith (c # cs) p \<or> contains cs p)"

definition brace_balance :: "string \<Rightarrow> int" where
  \<comment> \<open>\<^verbatim>\<open>s.count('{') - s.count('}')\<close>\<close>
  "brace_balance s = int (count_list s (CHR ''{'')) - int (count_list s (CHR ''}''))"

fun split_nl :: "string \<Rightarrow> string list" where
  \<comment> \<open>\<^verbatim>\<open>s.split('\n')\<close>\<close>
  "split_nl [] = [[]]"
| "split_nl (c # cs) =
     (if c = LF then [] # split_nl cs
      else (case split_nl cs of [] \<Rightarrow> [[c]] | l # ls \<Rightarrow> (c # l) # ls))"

fun join_nl :: "string list \<Rightarrow> string" where
  \<comment> \<open>\<^verbatim>\<open>'\n'.join(ls)\<close>\<close>
  "join_nl [] = []"
| "join_nl [l] = l"
| "join_nl (l # m # ls) = l @ LF # join_nl (m # ls)"

definition truthy :: "string option \<Rightarrow> bool" where
  \<comment> \<open>the truth value of an \<^verbatim>\<open>Optional[str]\<close>: neither \<^verbatim>\<open>None\<close> nor empty\<close>
  "truthy v = (case v of None \<Rightarrow> False | Some s \<Rightarrow> s \<noteq> [])"

datatype error = IndexError

definition py_index :: "'a list \<Rightarrow> int \<Rightarrow> error + 'a" where
  \<comment> \<open>the subscript \<^verbatim>\<open>xs[i]\<close> of a Python list, which raises outside \<^verbatim>\<open>-len(xs) .. len(xs)-1\<close>\<close>
  "py_index xs i =
     (if 0 \<le> i \<and> i < int (length xs) then Inr (xs ! nat i)
      else if - int (length xs) \<le> i \<and> i < 0 then Inr (xs ! nat (int (length xs) + i))
      else Inl IndexError)"

section \<open>Configuration\<close>

text \<open>The four lists of \<^verbatim>\<open>SKIP_PATTERNS\<close>.\<close>

definition line_prefixes :: "string list" where
  "line_prefixes = [''option go_package'']"

definition line_contains :: "string list" where
  "line_contains = [''option (grpc.gateway.protoc_gen_openapiv2.options.openapiv2_swagger)'']"

definition option_blocks :: "string list" where
  "option_blocks = [''option (google.api.http)'']"

definition import_contains :: "string list" where
  "import_contains = [''google/api/annotations.proto'',
                      ''protoc-gen-openapiv2/options/annotations.proto'']"

section \<open>Section extractor: \<^verbatim>\<open>parse_proto_file\<close>\<close>

record parsed =
  p_license :: "string list"
  p_syntax :: "string option"
  p_java_package :: "string option"
  p_package :: "string option"
  p_imports :: "string list"
  p_body :: "string list"

text \<open>The dictionary \<^verbatim>\<open>result\<close> and the five local variables of the scan.\<close>

record parse_state =
  result :: parsed
  license_done :: bool
  syntax_done :: bool
  package_done :: bool
  in_http_option :: bool
  brace_depth :: int

definition init_state :: parse_state where
  "init_state = \<lparr>result = \<lparr>p_license = [], p_syntax = None, p_java_package = None,
                            p_package = None, p_imports = [], p_body = []\<rparr>,
                 license_done = False, syntax_done = False, package_done = False,
                 in_http_option = False, brace_depth = 0\<rparr>"

definition is_comment :: "string list \<Rightarrow> nat \<Rightarrow> string \<Rightarrow> error + bool" where
  \<comment> \<open>the disjunction is evaluated left to right; only its last operand reads
      \<^verbatim>\<open>lines[i-1]\<close>\<close>
  "is_comment lines i stripped =
     (if startswith stripped ''//'' then Inr True
      else if startswith stripped ''/*'' then Inr True
      else if startswith stripped ''*'' \<and> i > 0 then
        (case py_index lines (int i - 1) of
           Inl e \<Rightarrow> Inl e
         | Inr prev \<Rightarrow> Inr (contains prev ''/*''))
      else Inr False)"

definition license_step ::
  "string list \<Rightarrow> nat \<Rightarrow> string \<Rightarrow> string \<Rightarrow> parse_state \<Rightarrow> error + (bool \<times> parse_state)" where
  \<comment> \<open>the block under \<^verbatim>\<open>if not license_done\<close>; the flag says that \<^verbatim>\<open>continue\<close> was
      executed\<close>
  "license_step lines i line stripped st =
     (if \<not> license_done st then
        (case is_comment lines i stripped of
           Inl e \<Rightarrow> Inl e
         | Inr c \<Rightarrow>
             if c then
               Inr (True, st\<lparr>result := (result st)\<lparr>p_license := p_license (result st) @ [line]\<rparr>\<rparr>)
             else if stripped = [] then Inr (True, st\<lparr>license_done := True\<rparr>)
             else Inr (False, st\<lparr>license_done := True\<rparr>))
      else Inr (False, st))"

definition option_blocks_loop :: "string \<Rightarrow> parse_state \<Rightarrow> parse_state" where
  \<comment> \<open>the loop \<^verbatim>\<open>for option_pattern in SKIP_PATTERNS['option_blocks']\<close>; its
      \<^verbatim>\<open>continue\<close> is the last statement of the loop body and goes to the next pattern\<close>
  "option_blocks_loop stripped st =
     fold (\<lambda>option_pattern s.
             if contains stripped option_pattern then
               (let s1 = s\<lparr>brace_depth := brace_balance stripped\<rparr>
                in if brace_depth s1 > 0 then s1\<lparr>in_http_option := True\<rparr> else s1)
             else s)
          option_blocks st"

definition main_step :: "string \<Rightarrow> string \<Rightarrow> parse_state \<Rightarrow> parse_state" where
  \<comment> \<open>the rest of the loop body, from \<^verbatim>\<open># Skip empty lines after license\<close> on\<close>
  "main_step line stripped st =
     (if license_done st \<and> \<not> syntax_done st \<and> stripped = [] then st
      else if \<not> syntax_done st \<and> startswith stripped ''syntax ='' then
        st\<lparr>result := (result st)\<lparr>p_syntax := Some line\<rparr>, syntax_done := True\<rparr>
      else if startswith stripped ''option java_package'' then
        (if \<not> truthy (p_java_package (result st))
         then st\<lparr>result := (result st)\<lparr>p_java_package := Some line\<rparr>\<rparr>
         else st)
      else if list_ex (startswith stripped) line_prefixes then st
      else if list_ex (contains stripped) line_contains then st
      else
        (let st1 = (if syntax_done st then option_blocks_loop stripped st else st)
         in if syntax_done st1 \<and> in_http_option st1 then
              (let st2 = st1\<lparr>brace_depth := brace_depth st1 + brace_balance stripped\<rparr>
               in if brace_depth st2 \<le> 0 then st2\<lparr>in_http_option := False\<rparr> else st2)
            else if \<not> package_done st1 \<and> startswith stripped ''package '' then
              st1\<lparr>result := (result st1)\<lparr>p_package := Some line\<rparr>, package_done := True\<rparr>
            else if startswith stripped ''import '' then
              (if \<not> list_ex (contains line) import_contains
               then st1\<lparr>result := (result st1)\<lparr>p_imports := p_imports (result st1) @ [line]\<rparr>\<rparr>
               else st1)
            else if syntax_done st1 \<and> package_done st1 \<and> \<not> in_http_option st1 then
              st1\<lparr>result := (result st1)\<lparr>p_body := p_body (result st1) @ [line]\<rparr>\<rparr>
            else st1))"

definition parse_line :: "string list \<Rightarrow> nat \<Rightarrow> string \<Rightarrow> parse_state \<Rightarrow> error + parse_state" where
  \<comment> \<open>one iteration of \<^verbatim>\<open>for i, line in enumerate(lines)\<close>\<close>
  "parse_line lines i line st =
     (let stripped = strip line
      in case license_step lines i line stripped st of
           Inl e \<Rightarrow> Inl e
         | Inr (continued, st') \<Rightarrow>
             if continued then Inr st' else Inr (main_step line stripped st'))"

fun parse_lines :: "string list \<Rightarrow> (nat \<times> string) list \<Rightarrow> parse_state \<Rightarrow> error + parse_state" where
  "parse_lines lines [] st = Inr st"
| "parse_lines lines ((i, line) # rest) st =
     (case parse_line lines i line st of
        Inl e \<Rightarrow> Inl e
      | Inr st' \<Rightarrow> parse_lines lines rest st')"

definition parse_proto_file :: "string \<Rightarrow> error + parsed" where
  "parse_proto_file content =
     (let lines = split_nl content
      in case parse_lines lines (enumerate 0 lines) init_state of
           Inl e \<Rightarrow> Inl e
         | Inr st \<Rightarrow> Inr (result st))"

section \<open>Import path rewriter: \<^verbatim>\<open>transform_import_path\<close>\<close>

text \<open>
  The pattern is \<^verbatim>\<open>banyandb/([^/]+)/v1/[^"]+\.proto\<close>. Matched at the start of a text it
  reads the literal \<^verbatim>\<open>banyandb/\<close>, then the group: the characters up to the next \<^verbatim>\<open>/\<close>,
  at least one (a shorter group would be followed by a character that is not \<^verbatim>\<open>/\<close>),
  then the literal \<^verbatim>\<open>/v1/\<close>, then \<^verbatim>\<open>[^"]+\.proto\<close>: the greedy \<^verbatim>\<open>[^"]+\<close> gives characters
  back until \<^verbatim>\<open>.proto\<close> follows, so the match ends at the last \<^verbatim>\<open>.proto\<close> that lies
  before the next double quote and has at least one character in front of it.
\<close>

fun find_last_proto :: "string \<Rightarrow> string option" where
  \<comment> \<open>what follows the match of \<^verbatim>\<open>[^"]+\.proto\<close> inside a text free of double quotes\<close>
  "find_last_proto [] = None"
| "find_last_proto (c # cs) =
     (case find_last_proto cs of
        Some after \<Rightarrow> Some after
      | None \<Rightarrow> if startswith cs ''.proto'' then Some (drop 6 cs) else None)"

definition match_import_path :: "string \<Rightarrow> (string \<times> string) option" where
  \<comment> \<open>the match at the start of \<open>s\<close>: group 1 and the text after the match\<close>
  "match_import_path s =
     (if startswith s ''banyandb/'' then
        (let s1 = drop 9 s;
             module = takeWhile (\<lambda>c. c \<noteq> CHR ''/'') s1;
             s2 = dropWhile (\<lambda>c. c \<noteq> CHR ''/'') s1
         in if module \<noteq> [] \<and> startswith s2 ''/v1/'' then
              (let s3 = drop 4 s2;
                   run = takeWhile (\<lambda>c. c \<noteq> CHR 0x22) s3;
                   after_run = dropWhile (\<lambda>c. c \<noteq> CHR 0x22) s3
               in case find_last_proto run of
                    None \<Rightarrow> None
                  | Some after \<Rightarrow> Some (module, after @ after_run))
            else None)
      else None)"

function re_sub_import :: "string \<Rightarrow> string" where
  \<comment> \<open>\<^verbatim>\<open>re.sub\<close>: every match, from the left, without overlap\<close>
  "re_sub_import [] = []"
| "re_sub_import (c # cs) =
     (case match_import_path (c # cs) of
        Some (module, after) \<Rightarrow>
          ''banyandb/v1/banyandb-'' @ module @ ''.proto'' @ re_sub_import after
      | None \<Rightarrow> c # re_sub_import cs)"
  by pat_completeness auto
termination
proof (relation "measure length")
  fix c :: char and cs x module after
  assume m: "match_import_path (c # cs) = Some x" and x: "(module, after) = x"
  let ?s = "c # cs"
  let ?s1 = "drop 9 ?s"
  let ?s2 = "dropWhile (\<lambda>c. c \<noteq> CHR ''/'') ?s1"
  let ?s3 = "drop 4 ?s2"
  let ?run = "takeWhile (\<lambda>c. c \<noteq> CHR 0x22) ?s3"
  let ?rest = "dropWhile (\<lambda>c. c \<noteq> CHR 0x22) ?s3"
  have shorter: "length a < length s" if "find_last_proto s = Some a" for s a
    using that by (induction s arbitrary: a) (auto split: option.splits if_splits)
  from m x obtain a where a: "find_last_proto ?run = Some a" and after: "after = a @ ?rest"
    unfolding match_import_path_def Let_def by (auto split: if_splits option.splits)
  have "length a < length ?run"
    using a by (rule shorter)
  moreover have "length ?run + length ?rest = length ?s3"
    by (metis length_append takeWhile_dropWhile_id)
  moreover have "length ?s3 \<le> length ?s2"
    by simp
  moreover have "length ?s2 \<le> length ?s1"
    by (rule length_dropWhile_le)
  moreover have "length ?s1 \<le> length ?s"
    by simp
  ultimately have "length after < length ?s"
    using after by simp
  then show "(after, c # cs) \<in> measure length"
    by simp
qed auto

definition transform_import_path :: "string \<Rightarrow> string" where
  "transform_import_path import_line = re_sub_import import_line"

section \<open>Definition exclusion filter: \<^verbatim>\<open>filter_excluded_definitions\<close>\<close>

text \<open>
  \<^verbatim>\<open>re.match(r'message\s+(\w+)', stripped)\<close> and its \<^verbatim>\<open>rpc\<close> twin: the keyword at the
  start, white space, then the longest run of word characters. No character is in both
  classes, so the greedy match is the only one.
\<close>

definition re_match_name :: "string \<Rightarrow> string \<Rightarrow> string option" where
  "re_match_name keyword s =
     (if startswith s keyword then
        (let after = drop (length keyword) s;
             name = takeWhile isword (dropWhile isspace after)
         in if takeWhile isspace after \<noteq> [] \<and> name \<noteq> [] then Some name else None)
      else None)"

definition excluded_message :: "string list \<Rightarrow> string \<Rightarrow> bool" where
  \<comment> \<open>the three nested conditions under \<^verbatim>\<open># Check for excluded messages\<close>\<close>
  "excluded_message exclude_messages stripped =
     (exclude_messages \<noteq> [] \<and> startswith stripped ''message '' \<and>
      (case re_match_name ''message'' stripped of
         None \<Rightarrow> False
       | Some message_name \<Rightarrow> message_name \<in> set exclude_messages))"

definition excluded_rpc :: "string list \<Rightarrow> string \<Rightarrow> bool" where
  \<comment> \<open>the three nested conditions under \<^verbatim>\<open># Check for excluded RPCs\<close>\<close>
  "excluded_rpc exclude_rpcs stripped =
     (exclude_rpcs \<noteq> [] \<and> startswith stripped ''rpc '' \<and>
      (case re_match_name ''rpc'' stripped of
         None \<Rightarrow> False
       | Some rpc_name \<Rightarrow> rpc_name \<in> set exclude_rpcs))"

text \<open>
  The \<^verbatim>\<open>while\<close> loop, on the lines \<^verbatim>\<open>body_lines[i:]\<close> still to be read; the lines it
  keeps are returned in order.
\<close>

fun filter_loop :: "string list \<Rightarrow> string list \<Rightarrow> bool \<Rightarrow> int \<Rightarrow> string list \<Rightarrow> string list" where
  "filter_loop exclude_messages exclude_rpcs skip_until_close depth [] = []"
| "filter_loop exclude_messages exclude_rpcs skip_until_close depth (line # rest) =
     (let stripped = strip line
      in if skip_until_close then
           (let depth1 = depth + brace_balance stripped
            in if depth1 \<le> 0
               then filter_loop exclude_messages exclude_rpcs False 0 rest
               else filter_loop exclude_messages exclude_rpcs True depth1 rest)
         else if excluded_message exclude_messages stripped then
           filter_loop exclude_messages exclude_rpcs True (brace_balance stripped) rest
         else if excluded_rpc exclude_rpcs stripped \<and> endswith stripped '';'' then
           filter_loop exclude_messages exclude_rpcs False depth rest
         else if excluded_rpc exclude_rpcs stripped \<and> contains stripped ''{'' then
           filter_loop exclude_messages exclude_rpcs True (brace_balance stripped) rest
         else line # filter_loop exclude_messages exclude_rpcs False depth rest)"

definition filter_excluded_definitions :: "string list \<Rightarrow> string list \<Rightarrow> string list \<Rightarrow> string list" where
  "filter_excluded_definitions body_lines exclude_messages exclude_rpcs =
     (if body_lines = [] \<or> (exclude_messages = [] \<and> exclude_rpcs = []) then body_lines
      else filter_loop exclude_messages exclude_rpcs False 0 body_lines)"

section \<open>Annotation stripper: \<^verbatim>\<open>remove_options_from_rpc_blocks\<close>\<close>

definition rpc_single_line :: "string \<Rightarrow> string" where
  \<comment> \<open>\<^verbatim>\<open>rpc_line.rstrip().rstrip('{').rstrip() + ';'\<close>\<close>
  "rpc_single_line rpc_line = rstrip (rstrip_char (CHR ''{'') (rstrip rpc_line)) @ '';''"

definition is_rpc_opener :: "string \<Rightarrow> bool" where
  "is_rpc_opener stripped = (contains stripped ''rpc '' \<and> endswith stripped ''{'')"

definition starts_definition :: "string \<Rightarrow> bool" where
  "starts_definition block_stripped =
     (startswith block_stripped ''rpc '' \<or> startswith block_stripped ''service '' \<or>
      startswith block_stripped ''message '')"

definition is_skip_option :: "string \<Rightarrow> bool" where
  "is_skip_option block_stripped = list_ex (contains block_stripped) option_blocks"

text \<open>
  The inner \<^verbatim>\<open>while j < len(body_lines)\<close> loop, on the lines \<^verbatim>\<open>body_lines[j:]\<close>. When the
  loop leaves through \<^verbatim>\<open>break\<close> the value is the lines appended to \<^verbatim>\<open>result\<close> and the
  lines \<^verbatim>\<open>body_lines[i:]\<close> for the new \<^verbatim>\<open>i\<close>; \<open>None\<close> is the \<^verbatim>\<open>else\<close> clause of the loop,
  the end of the input.
\<close>

fun scan_rpc_block ::
  "string \<Rightarrow> string list \<Rightarrow> nat \<Rightarrow> string list \<Rightarrow> (string list \<times> string list) option" where
  "scan_rpc_block rpc_line block_content option_count [] = None"
| "scan_rpc_block rpc_line block_content option_count (block_line # rest) =
     (let block_stripped = strip block_line
      in if starts_definition block_stripped then
           Some ([rpc_single_line rpc_line], block_line # rest)
         else if block_stripped = ''}'' then
           (let has_non_empty_content = list_ex (\<lambda>l. strip l \<noteq> []) block_content
            in if option_count > 0 \<or> has_non_empty_content then
                 (if has_non_empty_content
                  then Some (rpc_line # block_content @ [block_line], rest)
                  else Some ([rpc_single_line rpc_line], rest))
               else Some ([rpc_single_line rpc_line], block_line # rest))
         else if is_skip_option block_stripped then
           scan_rpc_block rpc_line block_content (option_count + 1) rest
         else scan_rpc_block rpc_line (block_content @ [block_line]) option_count rest)"

function remove_options_loop :: "string list \<Rightarrow> string list" where
  "remove_options_loop [] = []"
| "remove_options_loop (line # rest) =
     (if is_rpc_opener (strip line) then
        (case scan_rpc_block line [] 0 rest of
           Some (emitted, next_lines) \<Rightarrow> emitted @ remove_options_loop next_lines
         | None \<Rightarrow> rpc_single_line line # remove_options_loop rest)
      else line # remove_options_loop rest)"
  by pat_completeness auto
termination
proof (relation "measure length")
  fix line :: string and rest x emitted next_lines
  assume s: "scan_rpc_block line [] 0 rest = Some x" and x: "(emitted, next_lines) = x"
  have "length n \<le> length ls" if "scan_rpc_block l bc k ls = Some (e, n)" for l bc k ls e n
    using that
    by (induction l bc k ls rule: scan_rpc_block.induct) (auto simp: Let_def split: if_splits)
  with s x have "length next_lines \<le> length rest"
    by metis
  then show "(next_lines, line # rest) \<in> measure length"
    by simp
qed auto

definition remove_options_from_rpc_blocks :: "string list \<Rightarrow> string list" where
  "remove_options_from_rpc_blocks body_lines =
     (if body_lines = [] then body_lines else remove_options_loop body_lines)"

section \<open>Empty-block collapser: \<^verbatim>\<open>cleanup_empty_rpc_blocks\<close>\<close>

function cleanup_loop :: "string list \<Rightarrow> string list" where
  "cleanup_loop [] = []"
| "cleanup_loop (line # rest) =
     (if is_rpc_opener (strip line) then
        (case dropWhile (\<lambda>l. strip l = []) rest of
           [] \<Rightarrow> line # cleanup_loop rest
         | closer # after \<Rightarrow>
             if strip closer = ''}'' then rpc_single_line line # cleanup_loop after
             else line # cleanup_loop rest)
      else line # cleanup_loop rest)"
  by pat_completeness auto
termination
proof (relation "measure length")
  fix line :: string and rest closer after
  assume "dropWhile (\<lambda>l. strip l = []) rest = closer # after"
  then have "length (closer # after) \<le> length rest"
    by (metis length_dropWhile_le)
  then show "(after, line # rest) \<in> measure length"
    by simp
qed auto

definition cleanup_empty_rpc_blocks :: "string list \<Rightarrow> string list" where
  "cleanup_empty_rpc_blocks body_lines =
     (if body_lines = [] then body_lines else cleanup_loop body_lines)"

section \<open>Merge orchestrator: \<^verbatim>\<open>merge_proto_files\<close>\<close>

definition blank :: "string \<Rightarrow> bool" where
  \<comment> \<open>\<^verbatim>\<open>not line.strip()\<close>\<close>
  "blank line = (strip line = [])"

definition truthy_list :: "string list option \<Rightarrow> bool" where
  \<comment> \<open>the truth value of an \<^verbatim>\<open>Optional[List[str]]\<close>\<close>
  "truthy_list v = (case v of None \<Rightarrow> False | Some xs \<Rightarrow> xs \<noteq> [])"

definition or_empty :: "string list option \<Rightarrow> string list" where
  \<comment> \<open>\<^verbatim>\<open>v or []\<close>\<close>
  "or_empty v = (case v of None \<Rightarrow> [] | Some xs \<Rightarrow> xs)"

fun parse_all :: "string list \<Rightarrow> error + parsed list" where
  \<comment> \<open>\<^verbatim>\<open>[parse_proto_file(content) for content in proto_contents]\<close>\<close>
  "parse_all [] = Inr []"
| "parse_all (content # rest) =
     (case parse_proto_file content of
        Inl e \<Rightarrow> Inl e
      | Inr p \<Rightarrow> (case parse_all rest of Inl e \<Rightarrow> Inl e | Inr ps \<Rightarrow> Inr (p # ps)))"

definition emit_field :: "string option \<Rightarrow> string list" where
  \<comment> \<open>a header field that is set, followed by an empty line\<close>
  "emit_field v = (case v of None \<Rightarrow> [] | Some l \<Rightarrow> if l \<noteq> [] then [l, []] else [])"

definition merge_header :: "parsed \<Rightarrow> string list" where
  \<comment> \<open>steps 1 to 4, from the first file\<close>
  "merge_header first =
     (if p_license first \<noteq> [] then p_license first @ [[]] else []) @
     emit_field (p_syntax first) @ emit_field (p_java_package first) @
     emit_field (p_package first)"

definition self_import :: "string option \<Rightarrow> string \<Rightarrow> bool" where
  "self_import current_module transformed_imp =
     (case current_module of
        None \<Rightarrow> False
      | Some m \<Rightarrow> m \<noteq> [] \<and> contains transformed_imp (''banyandb/v1/banyandb-'' @ m @ ''.proto''))"

definition all_imports :: "parsed list \<Rightarrow> string option \<Rightarrow> string list" where
  \<comment> \<open>the set \<^verbatim>\<open>all_imports\<close>, as a list without repetition\<close>
  "all_imports parsed_files current_module =
     remdups (filter (\<lambda>transformed_imp. \<not> self_import current_module transformed_imp)
                (map (\<lambda>imp. transform_import_path (strip imp))
                   (concat (map p_imports parsed_files))))"

definition import_tier :: "string \<Rightarrow> nat" where
  "import_tier x = (if contains x ''google/'' then 0 else if contains x ''validate/'' then 1 else 2)"

definition sorted_imports :: "parsed list \<Rightarrow> string option \<Rightarrow> string list" where
  \<comment> \<open>\<^verbatim>\<open>sorted(all_imports, key=lambda x: (tier, x))\<close>: no two members of the set have the
      same key, so the order in which the set is read does not matter\<close>
  "sorted_imports parsed_files current_module =
     sort_key (\<lambda>x. (import_tier x, x)) (all_imports parsed_files current_module)"

definition merge_imports :: "parsed list \<Rightarrow> string option \<Rightarrow> string list" where
  \<comment> \<open>step 5\<close>
  "merge_imports parsed_files current_module =
     (if all_imports parsed_files current_module \<noteq> []
      then sorted_imports parsed_files current_module @ [[]] else [])"

definition process_body :: "string list option \<Rightarrow> string list option \<Rightarrow> string list \<Rightarrow> string list" where
  \<comment> \<open>what step 6 does to one non-empty body\<close>
  "process_body exclude_messages exclude_rpcs body =
     (let body_lines = dropWhile blank body;
          body_lines = rev (dropWhile blank (rev body_lines));
          body_lines = filter (\<lambda>line. \<not> list_ex (startswith (strip line)) line_prefixes \<and>
                                       \<not> list_ex (contains (strip line)) line_contains) body_lines;
          body_lines = (if truthy_list exclude_messages \<or> truthy_list exclude_rpcs
                        then filter_excluded_definitions body_lines
                               (or_empty exclude_messages) (or_empty exclude_rpcs)
                        else body_lines);
          body_lines = remove_options_from_rpc_blocks body_lines;
          body_lines = cleanup_empty_rpc_blocks body_lines
      in body_lines)"

fun merge_bodies ::
  "string list option \<Rightarrow> string list option \<Rightarrow> nat \<Rightarrow> parsed list \<Rightarrow> string list" where
  \<comment> \<open>\<^verbatim>\<open>for i, parsed in enumerate(parsed_files)\<close>, from index \<open>i\<close> on\<close>
  "merge_bodies exclude_messages exclude_rpcs i [] = []"
| "merge_bodies exclude_messages exclude_rpcs i (p # rest) =
     (if p_body p \<noteq> [] then
        (let body_lines = process_body exclude_messages exclude_rpcs (p_body p)
         in if body_lines \<noteq> [] then (if i > 0 then [[]] else []) @ body_lines else [])
      else []) @
     merge_bodies exclude_messages exclude_rpcs (Suc i) rest"

definition merge_proto_files ::
  "string list \<Rightarrow> string option \<Rightarrow> string list option \<Rightarrow> string list option \<Rightarrow> error + string" where
  "merge_proto_files proto_contents current_module exclude_messages exclude_rpcs =
     (if proto_contents = [] then Inr []
      else
        (case parse_all proto_contents of
           Inl e \<Rightarrow> Inl e
         | Inr parsed_files \<Rightarrow>
             (case py_index parsed_files 0 of
                Inl e \<Rightarrow> Inl e
              | Inr first \<Rightarrow>
                  (let merged = merge_header first @ merge_imports parsed_files current_module @
                                merge_bodies exclude_messages exclude_rpcs 0 parsed_files;
                       merged = rev (dropWhile blank (rev merged))
                   in Inr (join_nl merged @ [LF])))))"

section \<open>Predicates used to state the properties\<close>

definition annotation_line :: "string \<Rightarrow> bool" where
  \<comment> \<open>an inner line of an RPC block that the stripper counts as a matching annotation\<close>
  "annotation_line a = (is_skip_option (strip a) \<and> \<not> starts_definition (strip a))"

definition inner_line :: "string \<Rightarrow> bool" where
  \<comment> \<open>an inner line that neither closes the block nor starts a definition\<close>
  "inner_line m = (\<not> starts_definition (strip m) \<and> strip m \<noteq> ''}'')"

fun closes_at_last :: "int \<Rightarrow> string list \<Rightarrow> bool" where
  \<comment> \<open>from depth \<open>d\<close>, the running brace balance is positive after every line but the
      last, and zero or below after the last\<close>
  "closes_at_last d [] = False"
| "closes_at_last d (x # xs) =
     (if xs = [] then d + brace_balance (strip x) \<le> 0
      else d + brace_balance (strip x) > 0 \<and> closes_at_last (d + brace_balance (strip x)) xs)"



definition parse_inv :: "parse_state \<Rightarrow> bool" where
  \<comment> \<open>what the flags of the scan say about the fields captured so far\<close>
  "parse_inv st =
     ((syntax_done st \<longrightarrow> p_syntax (result st) \<noteq> None) \<and>
      (\<not> syntax_done st \<longrightarrow> p_body (result st) = []) \<and>
      (p_package (result st) \<noteq> None \<longrightarrow> package_done st))"

definition all_fields :: "(string \<Rightarrow> bool) \<Rightarrow> parsed \<Rightarrow> bool" where
  \<comment> \<open>every line held by a parsed document satisfies \<open>P\<close>\<close>
  "all_fields P r =
     (list_all P (p_license r) \<and> pred_option P (p_syntax r) \<and> pred_option P (p_java_package r) \<and>
      pred_option P (p_package r) \<and> list_all P (p_imports r) \<and> list_all P (p_body r))"

definition package_ok :: "string list \<Rightarrow> parse_state \<Rightarrow> bool" where
  \<comment> \<open>the package field, when set, is a line of the document that begins with the keyword\<close>
  "package_ok lines st =
     pred_option (\<lambda>l. l \<in> set lines \<and> startswith (strip l) ''package '') (p_package (result st))"

definition last_line :: "string \<Rightarrow> string" where
  \<comment> \<open>the part of a text after its last line terminator\<close>
  "last_line s = rev (takeWhile (\<lambda>c. c \<noteq> LF) (rev s))"

definition no_lf :: "string \<Rightarrow> bool" where
  \<comment> \<open>a line holds no line terminator\<close>
  "no_lf l = (LF \<notin> set l)"

section \<open>Evaluation\<close>

lemmas string_eval =
  strip_def lstrip_def rstrip_def rstrip_char_def isspace_def endswith_def brace_balance_def

lemmas config_eval =
  line_prefixes_def line_contains_def option_blocks_def import_contains_def

lemmas parse_eval =
  parse_proto_file_def parse_line_def license_step_def is_comment_def main_step_def
  option_blocks_loop_def init_state_def truthy_def py_index_def enumerate_eq_zip

lemmas merge_eval =
  merge_proto_files_def merge_header_def emit_field_def merge_imports_def sorted_imports_def
  all_imports_def self_import_def import_tier_def transform_import_path_def
  match_import_path_def process_body_def blank_def filter_excluded_definitions_def
  remove_options_from_rpc_blocks_def cleanup_empty_rpc_blocks_def truthy_list_def or_empty_def
  excluded_message_def excluded_rpc_def re_match_name_def isword_def

lemmas rpc_eval =
  is_rpc_opener_def starts_definition_def is_skip_option_def rpc_single_line_def

section \<open>The annotation stripper\<close>

lemma remove_options_from_rpc_blocks_loop:
  "remove_options_from_rpc_blocks ls = remove_options_loop ls"
  by (simp add: remove_options_from_rpc_blocks_def)

lemma closer_is_plain:
  assumes "strip c = ''}''"
  shows "\<not> starts_definition (strip c)" and "\<not> is_skip_option (strip c)"
    and "\<not> is_rpc_opener (strip c)"
  using assms
  by (simp_all add: starts_definition_def is_skip_option_def option_blocks_def
      is_rpc_opener_def endswith_def)

lemma scan_annotations:
  assumes "list_all annotation_line anns"
  shows "scan_rpc_block l bc n (anns @ ls) = scan_rpc_block l bc (n + length anns) ls"
  using assms
proof (induction anns arbitrary: n)
  case Nil
  then show ?case by simp
next
  case (Cons a anns)
  have "strip a \<noteq> ''}''"
    using Cons.prems closer_is_plain(2) [of a] by (auto simp: annotation_line_def)
  then show ?case
    using Cons by (simp add: annotation_line_def)
qed

lemma scan_closer:
  assumes "strip c = ''}''"
  shows "scan_rpc_block l [] n (c # rest) =
           (if n > 0 then Some ([rpc_single_line l], rest)
            else Some ([rpc_single_line l], c # rest))"
  using assms closer_is_plain(1) [OF assms] by simp

lemma scan_block_without_content:
  assumes "list_all annotation_line anns" and "strip c = ''}''"
  shows "scan_rpc_block l [] 0 (anns @ c # rest) =
           (if anns = [] then Some ([rpc_single_line l], c # rest)
            else Some ([rpc_single_line l], rest))"
  using scan_annotations [OF assms(1), of l "[]" 0 "c # rest"]
    scan_closer [OF assms(2), of l "length anns" rest]
  by simp

lemma scan_until_definition:
  assumes "list_all inner_line mid" and "starts_definition (strip x)"
  shows "scan_rpc_block l bc n (mid @ x # rest) = Some ([rpc_single_line l], x # rest)"
  using assms
  by (induction mid arbitrary: bc n) (simp_all add: inner_line_def)

text \<open>
  C3, as amended. When the scan reaches an RPC block opener whose inner lines, up to the
  closing line, are all matching annotations, and there is at least one, the output is
  the opener with its trailing \<^verbatim>\<open>{\<close> removed and a semicolon appended, and the closing
  line is not emitted. When there are no inner lines at all, the opener is collapsed in
  the same way, but the closing line is not consumed: it is emitted after the collapsed
  opener.
\<close>

theorem rpc_block_without_content:
  assumes "is_rpc_opener (strip l)" and "list_all annotation_line anns" and "strip c = ''}''"
  shows "remove_options_from_rpc_blocks (l # anns @ c # rest) =
           (if anns = [] then rpc_single_line l # c # remove_options_from_rpc_blocks rest
            else rpc_single_line l # remove_options_from_rpc_blocks rest)"
  using assms(1) closer_is_plain(3) [OF assms(3)] scan_block_without_content [OF assms(2,3), of l rest]
  by (simp add: remove_options_from_rpc_blocks_loop)

text \<open>The theorem at a block with one annotation, inside a service.\<close>

theorem rpc_block_without_content_witness:
  "is_rpc_opener (strip ''  rpc Q(A) returns (B) {'') \<and>
   list_all annotation_line [''    option (google.api.http) = {get: 1};''] \<and>
   strip ''  }'' = ''}'' \<and>
   remove_options_from_rpc_blocks
     [''  rpc Q(A) returns (B) {'', ''    option (google.api.http) = {get: 1};'', ''  }'', ''}'']
   = [''  rpc Q(A) returns (B);'', ''}'']"
proof -
  have h1: "is_rpc_opener (strip ''  rpc Q(A) returns (B) {'')"
    by (simp add: string_eval rpc_eval)
  have h2: "list_all annotation_line [''    option (google.api.http) = {get: 1};'']"
    by (simp add: annotation_line_def string_eval rpc_eval config_eval)
  have h3: "strip ''  }'' = ''}''"
    by (simp add: string_eval)
  have r: "remove_options_from_rpc_blocks [''}''] = [''}'']"
    by (simp add: remove_options_from_rpc_blocks_loop string_eval rpc_eval)
  have s: "rpc_single_line ''  rpc Q(A) returns (B) {'' = ''  rpc Q(A) returns (B);''"
    by (simp add: string_eval rpc_eval)
  show ?thesis
    using h1 h2 h3 rpc_block_without_content [OF h1 h2 h3, of "[''}'']"] r s by simp
qed

text \<open>
  The claim as written fails where the opener is followed at once by the bare closer: the
  closing line is emitted.
\<close>

theorem no_inner_lines_closer_emitted:
  "remove_options_from_rpc_blocks [''rpc A(B) returns (C) {'', ''}'']
   = [''rpc A(B) returns (C);'', ''}'']"
  by (simp add: remove_options_from_rpc_blocks_loop string_eval rpc_eval)



text \<open>
  An option line that contains no configured marker is content of the block, which is
  then emitted as it is.
\<close>

lemma other_option_line_kept:
  "remove_options_from_rpc_blocks
     [''rpc Baz(Req) returns (Res) {'', ''  option (x) = {...};'', ''}'']
   = [''rpc Baz(Req) returns (Res) {'', ''  option (x) = {...};'', ''}'']"
  by (simp add: remove_options_from_rpc_blocks_loop string_eval rpc_eval config_eval)

text \<open>
  At a malformed block: when the scan reaches an RPC block opener that is followed, before
  any closing line, by a line starting an \<^verbatim>\<open>rpc\<close>, \<^verbatim>\<open>service\<close> or \<^verbatim>\<open>message\<close> definition, the
  opener is collapsed to a single terminated line and the scan resumes at the offending
  line, which is not consumed.
\<close>

lemma malformed_block_resumes_at_definition:
  assumes "is_rpc_opener (strip l)" and "list_all inner_line mid"
    and "starts_definition (strip x)"
  shows "remove_options_from_rpc_blocks (l # mid @ x # rest) =
           rpc_single_line l # remove_options_from_rpc_blocks (x # rest)"
proof -
  have "scan_rpc_block l [] 0 (mid @ x # rest) = Some ([rpc_single_line l], x # rest)"
    using assms(2,3) by (rule scan_until_definition)
  then show ?thesis
    using assms(1) by (simp add: remove_options_from_rpc_blocks_loop)
qed

text \<open>
  C6. An RPC block that misses its closing brace and is followed at once by a \<^verbatim>\<open>message\<close>
  line is to be collapsed, with the \<^verbatim>\<open>message\<close> line left unmodified and in position. The
  scan resumes at that line, but its test for an RPC line is a substring test, which the
  line \<^verbatim>\<open>message Grpc {\<close> passes: the message line is rewritten to \<^verbatim>\<open>message Grpc;\<close>.
\<close>

theorem message_line_taken_for_opener:
  "remove_options_from_rpc_blocks [''rpc A(B) returns (C) {'', ''message Grpc {'', ''}'']
   = [''rpc A(B) returns (C);'', ''message Grpc;'', ''}'']"
  by (simp add: remove_options_from_rpc_blocks_loop string_eval rpc_eval)

text \<open>
  The same test rewrites the declaration of a well-formed message of that name when its
  first inner line starts a nested message.
\<close>

lemma message_declaration_rewritten:
  "remove_options_from_rpc_blocks
     [''message Grpc {'', ''  message Inner {'', ''    int32 a = 1;'', ''  }'', ''}'']
   = [''message Grpc;'', ''  message Inner {'', ''    int32 a = 1;'', ''  }'', ''}'']"
  by (simp add: remove_options_from_rpc_blocks_loop string_eval rpc_eval)

section \<open>The definition exclusion filter\<close>

lemma filter_excluded_definitions_loop:
  assumes "exclude_messages \<noteq> [] \<or> exclude_rpcs \<noteq> []"
  shows "filter_excluded_definitions ls exclude_messages exclude_rpcs =
           filter_loop exclude_messages exclude_rpcs False 0 ls"
  using assms by (cases ls) (auto simp: filter_excluded_definitions_def)

lemma skip_run:
  assumes "closes_at_last d blk"
  shows "filter_loop em er True d (blk @ rest) = filter_loop em er False 0 rest"
  using assms
proof (induction blk arbitrary: d)
  case Nil
  then show ?case by simp
next
  case (Cons x blk)
  show ?case
  proof (cases "blk = []")
    case True
    with Cons.prems show ?thesis by simp
  next
    case False
    with Cons.prems have pos: "d + brace_balance (strip x) > 0"
      and tl: "closes_at_last (d + brace_balance (strip x)) blk"
      by simp_all
    from Cons.IH [OF tl] pos show ?thesis by simp
  qed
qed


lemma excluded_message_nonempty: "excluded_message em s \<Longrightarrow> em \<noteq> []"
  by (simp add: excluded_message_def)





text \<open>
  C10. When the declaration line of an excluded message is brace-balanced in itself, the
  filter starts skipping with balance zero, so the line that follows is always discarded;
  when that line opens a block, the filter goes on skipping to the end of that block.
\<close>

theorem balanced_declaration_swallows_next:
  assumes "excluded_message em (strip d)" and "brace_balance (strip d) = 0"
  shows "filter_excluded_definitions (d # x # rest) em er =
           (if brace_balance (strip x) \<le> 0 then filter_excluded_definitions rest em er
            else filter_loop em er True (brace_balance (strip x)) rest) \<and>
         (closes_at_last 0 (x # blk) \<longrightarrow>
            filter_excluded_definitions (d # x # blk @ rest) em er =
              filter_excluded_definitions rest em er)"
proof -
  have ne: "em \<noteq> [] \<or> er \<noteq> []"
    using excluded_message_nonempty [OF assms(1)] by simp
  have "filter_loop em er False 0 (d # (x # blk) @ rest) = filter_loop em er False 0 rest"
    if "closes_at_last 0 (x # blk)"
    using assms skip_run [OF that, of em er rest] by simp
  then show ?thesis
    using assms by (simp add: filter_excluded_definitions_loop [OF ne])
qed

text \<open>
  The theorem at \<^verbatim>\<open>message Foo {}\<close> followed by another message: that message is discarded
  with its block.
\<close>

theorem balanced_declaration_swallows_next_witness:
  "excluded_message [''Foo''] (strip ''message Foo {}'') \<and>
   brace_balance (strip ''message Foo {}'') = 0 \<and>
   closes_at_last 0 (''message Bar {'' # [''  int32 a = 1;'', ''}'']) \<and>
   filter_excluded_definitions [''message Foo {}'', ''message Bar {'', ''message Baz {}''] [''Foo''] []
     = [] \<and>
   filter_excluded_definitions
     [''message Foo {}'', ''message Bar {'', ''  int32 a = 1;'', ''}'', ''message Baz {}'']
     [''Foo''] []
   = [''message Baz {}'']"
proof -
  have h1: "excluded_message [''Foo''] (strip ''message Foo {}'')"
    by (simp add: string_eval excluded_message_def re_match_name_def isword_def)
  have h2: "brace_balance (strip ''message Foo {}'') = 0"
    by (simp add: string_eval)
  have h3: "closes_at_last 0 (''message Bar {'' # [''  int32 a = 1;'', ''}''])"
    by (simp add: string_eval)
  have b: "brace_balance (strip ''message Bar {'') = 1"
    by (simp add: string_eval)
  have r: "filter_excluded_definitions [''message Baz {}''] [''Foo''] [] = [''message Baz {}'']"
    by (simp add: filter_excluded_definitions_def string_eval excluded_message_def
        excluded_rpc_def re_match_name_def isword_def)
  have r': "filter_loop [''Foo''] [] True 1 [''message Baz {}''] = []"
    by (simp add: string_eval)
  show ?thesis
    using h1 h2 h3 b r r'
      balanced_declaration_swallows_next [OF h1 h2, where x = "''message Bar {''"
        and rest = "[''message Baz {}'']" and blk = "[''  int32 a = 1;'', ''}'']" and er = "[]"]
    by simp
qed

section \<open>The section extractor\<close>

lemma option_blocks_loop_fields [simp]:
  "result (option_blocks_loop s st) = result st"
  "license_done (option_blocks_loop s st) = license_done st"
  "syntax_done (option_blocks_loop s st) = syntax_done st"
  "package_done (option_blocks_loop s st) = package_done st"
  by (simp_all add: option_blocks_loop_def option_blocks_def Let_def)

lemma is_comment_total:
  assumes "i < length lines"
  shows "\<exists>b. is_comment lines i s = Inr b"
  using assms by (auto simp: is_comment_def py_index_def)

lemma license_step_total:
  assumes "i < length lines"
  shows "\<exists>c st'. license_step lines i line s st = Inr (c, st')"
  using is_comment_total [OF assms, of s]
  by (auto simp: license_step_def)

lemma parse_line_total:
  assumes "i < length lines"
  shows "\<exists>st'. parse_line lines i line st = Inr st'"
  using license_step_total [OF assms, of line "strip line" st]
  by (auto simp: parse_line_def Let_def)

lemma parse_lines_total:
  assumes "\<forall>p \<in> set ps. fst p < length lines"
  shows "\<exists>st'. parse_lines lines ps st = Inr st'"
  using assms
proof (induction ps arbitrary: st)
  case Nil
  then show ?case by simp
next
  case (Cons p ps)
  obtain i line where p: "p = (i, line)" by (cases p)
  with Cons.prems have "i < length lines" by simp
  then obtain st1 where "parse_line lines i line st = Inr st1"
    using parse_line_total by blast
  moreover obtain st2 where "parse_lines lines ps st1 = Inr st2"
    using Cons by auto
  ultimately show ?case using p by simp
qed

lemma parse_proto_file_total: "\<exists>r. parse_proto_file content = Inr r"
proof -
  have "\<forall>p \<in> set (enumerate 0 (split_nl content)). fst p < length (split_nl content)"
    by (auto simp: in_set_enumerate_eq)
  from parse_lines_total [OF this, of init_state] show ?thesis
    by (auto simp: parse_proto_file_def Let_def)
qed

lemma license_step_inv:
  assumes "license_step lines i line s st = Inr (c, st')"
  shows "parse_inv st \<Longrightarrow> parse_inv st'"
    and "p_package (result st') = p_package (result st)"
    and "all_fields P (result st) \<Longrightarrow> P line \<Longrightarrow> all_fields P (result st')"
  using assms
  by (auto simp: license_step_def parse_inv_def all_fields_def split: if_splits sum.splits)

lemma main_step_inv:
  shows "parse_inv st \<Longrightarrow> parse_inv (main_step line s st)"
    and "package_done st \<Longrightarrow> p_package (result (main_step line s st)) = p_package (result st)"
    and "all_fields P (result st) \<Longrightarrow> P line \<Longrightarrow> all_fields P (result (main_step line s st))"
    and "p_package (result (main_step line s st)) = Some l \<Longrightarrow> p_package (result st) \<noteq> Some l \<Longrightarrow> l = line \<and> startswith s ''package ''"
  by (auto simp: main_step_def parse_inv_def all_fields_def Let_def split: if_splits)


lemma main_step_package_ok:
  assumes "package_ok lines st" and "line \<in> set lines"
  shows "package_ok lines (main_step line (strip line) st)"
  using assms
  by (auto simp: main_step_def package_ok_def Let_def split: if_splits)

lemma parse_line_inv:
  assumes "parse_line lines i line st = Inr st'"
  shows "parse_inv st \<Longrightarrow> parse_inv st'"
    and "parse_inv st \<Longrightarrow> p_package (result st) = Some l \<Longrightarrow> p_package (result st') = Some l"
    and "all_fields P (result st) \<Longrightarrow> P line \<Longrightarrow> all_fields P (result st')"
    and "package_ok lines st \<Longrightarrow> line \<in> set lines \<Longrightarrow> package_ok lines st'"
proof -
  from assms obtain c st1 where ls: "license_step lines i line (strip line) st = Inr (c, st1)"
    and st': "st' = (if c then st1 else main_step line (strip line) st1)"
    by (auto simp: parse_line_def Let_def split: sum.splits if_splits)
  note l = license_step_inv [OF ls]
  show "parse_inv st'" if "parse_inv st"
    using that l(1) main_step_inv(1) st' by simp
  show "p_package (result st') = Some l" if "parse_inv st" and "p_package (result st) = Some l"
  proof -
    have "parse_inv st1" and "p_package (result st1) = Some l"
      using that l(1,2) by simp_all
    then have "package_done st1"
      by (simp add: parse_inv_def)
    then show ?thesis
      using st' main_step_inv(2) [of st1 line "strip line"] \<open>p_package (result st1) = Some l\<close>
      by simp
  qed
  show "all_fields P (result st')" if "all_fields P (result st)" and "P line"
    using that l(3) main_step_inv(3) st' by simp
  show "package_ok lines st'" if "package_ok lines st" and "line \<in> set lines"
  proof -
    have "package_ok lines st1"
      using that(1) l(2) by (simp add: package_ok_def)
    then show ?thesis
      using st' main_step_package_ok that(2) by simp
  qed
qed

lemma parse_lines_inv:
  assumes "parse_lines lines ps st = Inr st'"
  shows "parse_inv st \<Longrightarrow> parse_inv st'"
    and "parse_inv st \<Longrightarrow> p_package (result st) = Some l \<Longrightarrow> p_package (result st') = Some l"
    and "all_fields P (result st) \<Longrightarrow> list_all P (map snd ps) \<Longrightarrow> all_fields P (result st')"
    and "package_ok lines st \<Longrightarrow> set (map snd ps) \<subseteq> set lines \<Longrightarrow> package_ok lines st'"
  using assms
proof (induction ps arbitrary: st)
  case Nil
  {
    case 1 then show ?case by simp
  next
    case 2 then show ?case by simp
  next
    case 3 then show ?case by simp
  next
    case 4 then show ?case by simp
  }
next
  case (Cons p ps)
  obtain i line where p: "p = (i, line)" by (cases p)
  {
    case 1
    then obtain st1 where s1: "parse_line lines i line st = Inr st1"
      and s2: "parse_lines lines ps st1 = Inr st'"
      using p by (auto split: sum.splits)
    show ?case
      using Cons.IH(1) [OF _ s2] parse_line_inv(1) [OF s1] 1 by simp
  next
    case 2
    then obtain st1 where s1: "parse_line lines i line st = Inr st1"
      and s2: "parse_lines lines ps st1 = Inr st'"
      using p by (auto split: sum.splits)
    show ?case
      using Cons.IH(2) [OF _ _ s2] parse_line_inv(1,2) [OF s1] 2 by simp
  next
    case 3
    then obtain st1 where s1: "parse_line lines i line st = Inr st1"
      and s2: "parse_lines lines ps st1 = Inr st'"
      using p by (auto split: sum.splits)
    show ?case
      using Cons.IH(3) [OF _ _ s2] parse_line_inv(3) [OF s1] 3 p by simp
  next
    case 4
    then obtain st1 where s1: "parse_line lines i line st = Inr st1"
      and s2: "parse_lines lines ps st1 = Inr st'"
      using p by (auto split: sum.splits)
    show ?case
      using Cons.IH(4) [OF _ _ s2] parse_line_inv(4) [OF s1] 4 p by simp
  }
qed

lemma parse_lines_append:
  "parse_lines lines (a @ b) st =
     (case parse_lines lines a st of Inl e \<Rightarrow> Inl e | Inr st' \<Rightarrow> parse_lines lines b st')"
  by (induction a arbitrary: st) (auto split: sum.splits)

lemma init_state_inv: "parse_inv init_state" "package_ok lines init_state"
  "all_fields P (result init_state)"
  by (simp_all add: parse_inv_def package_ok_def all_fields_def init_state_def)

text \<open>
  C2, as amended. The package field is set by a line that begins with \<^verbatim>\<open>package \<close>, whether
  or not a syntax line has been captured, and once it is set no later line replaces it;
  in every document in which no syntax line has been seen, no line is captured into the
  body.
\<close>

theorem package_line_capture:
  assumes "parse_proto_file content = Inr r"
  shows "(p_syntax r = None \<longrightarrow> p_body r = []) \<and>
         (\<forall>l. p_package r = Some l \<longrightarrow>
            l \<in> set (split_nl content) \<and> startswith (strip l) ''package '') \<and>
         (\<forall>k st l. parse_lines (split_nl content) (take k (enumerate 0 (split_nl content)))
                      init_state = Inr st \<and> p_package (result st) = Some l \<longrightarrow>
            p_package r = Some l)"
proof -
  let ?lines = "split_nl content"
  let ?E = "enumerate 0 ?lines"
  from assms obtain st' where run: "parse_lines ?lines ?E init_state = Inr st'"
    and r: "r = result st'"
    by (auto simp: parse_proto_file_def Let_def split: sum.splits)
  have inv: "parse_inv st'"
    using parse_lines_inv(1) [OF run] init_state_inv(1) by simp
  have ok: "package_ok ?lines st'"
    using parse_lines_inv(4) [OF run] init_state_inv(2) by simp
  have first: "p_package r = Some l"
    if "parse_lines ?lines (take k ?E) init_state = Inr st" and "p_package (result st) = Some l"
    for k st l
  proof -
    have rest: "parse_lines ?lines (drop k ?E) st = Inr st'"
      using parse_lines_append [of ?lines "take k ?E" "drop k ?E" init_state] run that(1)
      by simp
    have "parse_inv st"
      using parse_lines_inv(1) [OF that(1)] init_state_inv(1) by simp
    then show ?thesis
      using parse_lines_inv(2) [OF rest] that(2) r by simp
  qed
  show ?thesis
    using inv ok first r by (auto simp: parse_inv_def package_ok_def)
qed

text \<open>The theorem at a document with two package lines and no syntax line.\<close>

theorem package_line_capture_witness:
  "parse_proto_file (join_nl [''package foo;'', ''package bar;''])
     = Inr \<lparr>p_license = [], p_syntax = None, p_java_package = None,
            p_package = Some ''package foo;'', p_imports = [], p_body = []\<rparr> \<and>
   ''package foo;'' \<in> set (split_nl (join_nl [''package foo;'', ''package bar;''])) \<and>
   startswith (strip ''package foo;'') ''package '' \<and>
   p_package (result (projr (parse_lines (split_nl (join_nl [''package foo;'', ''package bar;'']))
      (take 1 (enumerate 0 (split_nl (join_nl [''package foo;'', ''package bar;'']))))
      init_state))) = Some ''package foo;''"
proof -
  let ?c = "join_nl [''package foo;'', ''package bar;'']"
  let ?r = "\<lparr>p_license = [], p_syntax = None, p_java_package = None,
            p_package = Some ''package foo;'', p_imports = [], p_body = []\<rparr>"
  have h: "parse_proto_file ?c = Inr ?r"
    by (simp add: parse_eval string_eval config_eval)
  have k: "parse_lines (split_nl ?c) (take 1 (enumerate 0 (split_nl ?c))) init_state =
             Inr (init_state\<lparr>result := ?r, license_done := True, package_done := True\<rparr>)"
    by (simp add: parse_eval string_eval config_eval)
  show ?thesis
    using h k package_line_capture [OF h] by simp
qed

text \<open>
  The claim as written fails on a document that has a package line and no syntax line:
  the package field is set.
\<close>

theorem package_without_syntax:
  "parse_proto_file ''package foo;''
   = Inr \<lparr>p_license = [], p_syntax = None, p_java_package = None,
          p_package = Some ''package foo;'', p_imports = [], p_body = []\<rparr>"
  by (simp add: parse_eval string_eval config_eval)

text \<open>
  C1. A line that contains an option-block marker is to be dropped, whatever its brace
  balance. The scan keeps it: in a document whose third line is a marker line with
  balance zero, that line is captured into the body.
\<close>

theorem marker_line_with_zero_balance_kept:
  "parse_proto_file (join_nl [''syntax = \"proto3\";'', ''package a;'',
                               ''option (google.api.http) = {};'', ''message M {}''])
   = Inr \<lparr>p_license = [], p_syntax = Some ''syntax = \"proto3\";'', p_java_package = None,
          p_package = Some ''package a;'', p_imports = [],
          p_body = [''option (google.api.http) = {};'', ''message M {}'']\<rparr>"
  by (simp add: parse_eval string_eval config_eval)

text \<open>
  On a marker line that opens a block the balance of the line is counted twice, so the
  block stays open past the line that closes it: here the message after the block is
  consumed as well.
\<close>

lemma marker_line_balance_counted_twice:
  "parse_proto_file (join_nl [''syntax = \"proto3\";'', ''package a;'',
                               ''option (google.api.http) = {'', ''};'', ''message M {}'',
                               ''}'', ''message N {}''])
   = Inr \<lparr>p_license = [], p_syntax = Some ''syntax = \"proto3\";'', p_java_package = None,
          p_package = Some ''package a;'', p_imports = [],
          p_body = [''message N {}'']\<rparr>"
  by (simp add: parse_eval string_eval config_eval)

section \<open>The import block\<close>

lemma sorted_wrt_distinct:
  assumes "sorted_wrt P ys" and "distinct ys"
  shows "sorted_wrt (\<lambda>x y. P x y \<and> x \<noteq> y) ys"
  using assms by (induction ys) auto

lemma set_all_imports:
  "set (all_imports parsed_files current_module) =
     {t. \<exists>p \<in> set parsed_files. \<exists>imp \<in> set (p_imports p).
           t = transform_import_path (strip imp) \<and> \<not> self_import current_module t}"
  by (auto simp: all_imports_def)

lemma parse_all_total: "\<exists>ps. parse_all cs = Inr ps \<and> length ps = length cs"
proof (induction cs)
  case Nil
  then show ?case by simp
next
  case (Cons c cs)
  obtain r where "parse_proto_file c = Inr r"
    using parse_proto_file_total by blast
  with Cons show ?case by auto
qed

text \<open>
  C7. The import block of the merged output holds every import line, after path rewriting
  and after the self-references are dropped, exactly once, however many documents hold
  it. The block is sorted: a line containing \<^verbatim>\<open>google/\<close> comes before every line that does
  not; among the lines without \<^verbatim>\<open>google/\<close>, a line containing \<^verbatim>\<open>validate/\<close> comes before
  every line that does not; two lines of the same family are in lexicographic order of
  their full text. The merged text is made of the header of the first document, then this
  block followed by one empty line (when the block is not empty), then the bodies.
\<close>

theorem import_block_deduplicated_and_sorted:
  assumes "proto_contents \<noteq> []" and "parse_all proto_contents = Inr parsed_files"
  shows
    "distinct (sorted_imports parsed_files current_module) \<and>
     set (sorted_imports parsed_files current_module) =
       {t. \<exists>p \<in> set parsed_files. \<exists>imp \<in> set (p_imports p).
             t = transform_import_path (strip imp) \<and> \<not> self_import current_module t} \<and>
     sorted_wrt
       (\<lambda>x y. (contains x ''google/'' \<and> \<not> contains y ''google/'') \<or>
              (\<not> contains x ''google/'' \<and> \<not> contains y ''google/'' \<and>
               contains x ''validate/'' \<and> \<not> contains y ''validate/'') \<or>
              (((contains x ''google/'' \<and> contains y ''google/'') \<or>
                (\<not> contains x ''google/'' \<and> \<not> contains y ''google/'' \<and>
                 contains x ''validate/'' = contains y ''validate/'')) \<and> x < y))
       (sorted_imports parsed_files current_module) \<and>
     merge_proto_files proto_contents current_module exclude_messages exclude_rpcs =
       Inr (join_nl (rev (dropWhile blank (rev
              (merge_header (parsed_files ! 0) @
               (if sorted_imports parsed_files current_module = [] then []
                else sorted_imports parsed_files current_module @ [[]]) @
               merge_bodies exclude_messages exclude_rpcs 0 parsed_files)))) @ [LF])"
proof -
  let ?key = "\<lambda>x. (import_tier x, x)"
  let ?xs = "all_imports parsed_files current_module"
  let ?ys = "sorted_imports parsed_files current_module"
  have ys: "?ys = sort_key ?key ?xs"
    by (simp add: sorted_imports_def)
  have d: "distinct ?ys"
    by (simp add: ys all_imports_def)
  have s: "set ?ys = set ?xs"
    by (simp add: ys)
  have "sorted (map ?key ?ys)"
    unfolding ys by (rule sorted_sort_key)
  then have "sorted_wrt (\<lambda>x y. ?key x \<le> ?key y) ?ys"
    by (simp add: sorted_map)
  then have "sorted_wrt (\<lambda>x y. ?key x \<le> ?key y \<and> x \<noteq> y) ?ys"
    using d by (rule sorted_wrt_distinct)
  then have o: "sorted_wrt
       (\<lambda>x y. (contains x ''google/'' \<and> \<not> contains y ''google/'') \<or>
              (\<not> contains x ''google/'' \<and> \<not> contains y ''google/'' \<and>
               contains x ''validate/'' \<and> \<not> contains y ''validate/'') \<or>
              (((contains x ''google/'' \<and> contains y ''google/'') \<or>
                (\<not> contains x ''google/'' \<and> \<not> contains y ''google/'' \<and>
                 contains x ''validate/'' = contains y ''validate/'')) \<and> x < y)) ?ys"
    by (rule sorted_wrt_mono_rel [rotated]) (auto simp: import_tier_def split: if_splits)
  have e: "?ys = [] \<longleftrightarrow> ?xs = []"
    using s by (metis set_empty)
  have len: "length parsed_files = length proto_contents"
    using parse_all_total [of proto_contents] assms(2) by simp
  with assms(1) have "parsed_files \<noteq> []"
    by auto
  then have idx: "py_index parsed_files 0 = Inr (parsed_files ! 0)"
    by (simp add: py_index_def)
  have m: "merge_imports parsed_files current_module = (if ?ys = [] then [] else ?ys @ [[]])"
    using e by (simp add: merge_imports_def)
  have out: "merge_proto_files proto_contents current_module exclude_messages exclude_rpcs =
       Inr (join_nl (rev (dropWhile blank (rev
              (merge_header (parsed_files ! 0) @ (if ?ys = [] then [] else ?ys @ [[]]) @
               merge_bodies exclude_messages exclude_rpcs 0 parsed_files)))) @ [LF])"
    using assms idx unfolding m [symmetric] by (simp add: merge_proto_files_def Let_def)
  show ?thesis
    using d s o out by (simp only: set_all_imports simp_thms)
qed

text \<open>
  The theorem at two documents: one import stands in both, and the line that is first in
  lexicographic order is of the last family.
\<close>

theorem import_block_deduplicated_and_sorted_witness:
  "[join_nl [''syntax = \"proto3\";'', ''package a;'', ''import \"validate/v.proto\";'',
             ''import \"google/api/b.proto\";'', ''import \"a/x.proto\";'',
             ''import \"google/api/a.proto\";'', ''message M {}''],
    join_nl [''syntax = \"proto3\";'', ''package a;'', ''import \"google/api/a.proto\";'',
             ''message N {}'']] \<noteq> [] \<and>
   parse_all
     [join_nl [''syntax = \"proto3\";'', ''package a;'', ''import \"validate/v.proto\";'',
               ''import \"google/api/b.proto\";'', ''import \"a/x.proto\";'',
               ''import \"google/api/a.proto\";'', ''message M {}''],
      join_nl [''syntax = \"proto3\";'', ''package a;'', ''import \"google/api/a.proto\";'',
               ''message N {}'']]
   = Inr [\<lparr>p_license = [], p_syntax = Some ''syntax = \"proto3\";'', p_java_package = None,
           p_package = Some ''package a;'',
           p_imports = [''import \"validate/v.proto\";'', ''import \"google/api/b.proto\";'',
                        ''import \"a/x.proto\";'', ''import \"google/api/a.proto\";''],
           p_body = [''message M {}'']\<rparr>,
          \<lparr>p_license = [], p_syntax = Some ''syntax = \"proto3\";'', p_java_package = None,
           p_package = Some ''package a;'',
           p_imports = [''import \"google/api/a.proto\";''],
           p_body = [''message N {}'']\<rparr>] \<and>
   merge_proto_files
     [join_nl [''syntax = \"proto3\";'', ''package a;'', ''import \"validate/v.proto\";'',
               ''import \"google/api/b.proto\";'', ''import \"a/x.proto\";'',
               ''import \"google/api/a.proto\";'', ''message M {}''],
      join_nl [''syntax = \"proto3\";'', ''package a;'', ''import \"google/api/a.proto\";'',
               ''message N {}'']] None None None
   = Inr (join_nl [''syntax = \"proto3\";'', [], ''package a;'', [],
                   ''import \"google/api/a.proto\";'', ''import \"google/api/b.proto\";'',
                   ''import \"validate/v.proto\";'', ''import \"a/x.proto\";'', [],
                   ''message M {}'', [], ''message N {}''] @ [LF])"
proof -
  let ?docs = "[join_nl [''syntax = \"proto3\";'', ''package a;'', ''import \"validate/v.proto\";'',
             ''import \"google/api/b.proto\";'', ''import \"a/x.proto\";'',
             ''import \"google/api/a.proto\";'', ''message M {}''],
    join_nl [''syntax = \"proto3\";'', ''package a;'', ''import \"google/api/a.proto\";'',
             ''message N {}'']]"
  let ?ps = "[\<lparr>p_license = [], p_syntax = Some ''syntax = \"proto3\";'', p_java_package = None,
           p_package = Some ''package a;'',
           p_imports = [''import \"validate/v.proto\";'', ''import \"google/api/b.proto\";'',
                        ''import \"a/x.proto\";'', ''import \"google/api/a.proto\";''],
           p_body = [''message M {}'']\<rparr>,
          \<lparr>p_license = [], p_syntax = Some ''syntax = \"proto3\";'', p_java_package = None,
           p_package = Some ''package a;'',
           p_imports = [''import \"google/api/a.proto\";''],
           p_body = [''message N {}'']\<rparr>]"
  have h1: "?docs \<noteq> []"
    by simp
  have h2: "parse_all ?docs = Inr ?ps"
    by (simp add: parse_eval string_eval config_eval)
  have e: "sorted_imports ?ps None
             = [''import \"google/api/a.proto\";'', ''import \"google/api/b.proto\";'',
                ''import \"validate/v.proto\";'', ''import \"a/x.proto\";'']"
    by (simp add: sorted_imports_def all_imports_def self_import_def transform_import_path_def
        match_import_path_def import_tier_def string_eval)
  have hd: "merge_header (?ps ! 0) = [''syntax = \"proto3\";'', [], ''package a;'', []]"
    by (simp add: merge_header_def emit_field_def)
  have bd: "merge_bodies None None 0 ?ps = [''message M {}'', [], ''message N {}'']"
    by (simp add: merge_eval string_eval rpc_eval config_eval)
  have "merge_proto_files ?docs None None None
   = Inr (join_nl [''syntax = \"proto3\";'', [], ''package a;'', [],
                   ''import \"google/api/a.proto\";'', ''import \"google/api/b.proto\";'',
                   ''import \"validate/v.proto\";'', ''import \"a/x.proto\";'', [],
                   ''message M {}'', [], ''message N {}''] @ [LF])"
    using import_block_deduplicated_and_sorted [OF h1 h2, of None None None]
    unfolding e hd bd by (simp add: blank_def string_eval)
  then show ?thesis
    using h2 by simp
qed

section \<open>The merged text\<close>

text \<open>
  C8. For every list of document texts, every module identifier and every pair of
  exclusion lists, \<^verbatim>\<open>merge_proto_files\<close> returns a text: no subscript it evaluates is out of
  range, and every loop it runs is a total function.
\<close>

theorem merge_proto_files_total:
  "\<exists>merged_text. merge_proto_files proto_contents current_module exclude_messages exclude_rpcs
      = Inr merged_text"
proof (cases "proto_contents = []")
  case True
  then show ?thesis by (simp add: merge_proto_files_def)
next
  case False
  obtain ps where ps: "parse_all proto_contents = Inr ps" and len: "length ps = length proto_contents"
    using parse_all_total by blast
  from False len have "ps \<noteq> []" by auto
  then have "py_index ps 0 = Inr (ps ! 0)"
    by (simp add: py_index_def)
  with ps False show ?thesis
    by (simp add: merge_proto_files_def Let_def)
qed

lemma split_nl_no_lf: "list_all no_lf (split_nl s)"
  by (induction s) (auto simp: no_lf_def split: list.splits)

lemma set_strip: "set (strip s) \<subseteq> set s"
proof -
  have "set (dropWhile P xs) \<subseteq> set xs" for P and xs :: string
    by (meson set_dropWhileD subsetI)
  then show ?thesis
    unfolding strip_def lstrip_def rstrip_def
    by (metis (no_types, lifting) set_rev subset_trans)
qed

lemma set_rpc_single_line: "set (rpc_single_line l) \<subseteq> set l \<union> {CHR '';''}"
proof -
  have d: "set (rev (dropWhile P (rev xs))) \<subseteq> set xs" for P and xs :: string
    using set_dropWhileD [of _ P "rev xs"] by auto
  have "set (rstrip (rstrip_char (CHR ''{'') (rstrip l))) \<subseteq> set l"
    unfolding rstrip_def rstrip_char_def using d by (meson subset_trans)
  then show ?thesis
    by (auto simp: rpc_single_line_def)
qed

lemma no_lf_rpc_single_line: "no_lf l \<Longrightarrow> no_lf (rpc_single_line l)"
  using set_rpc_single_line [of l] by (auto simp: no_lf_def)

lemma find_last_proto_set: "find_last_proto s = Some a \<Longrightarrow> set a \<subseteq> set s"
proof (induction s arbitrary: a)
  case Nil
  then show ?case by simp
next
  case (Cons c cs)
  then show ?case
    by (auto split: option.splits if_splits dest: in_set_dropD)
qed

lemma match_import_path_set:
  assumes "match_import_path s = Some (module, after)"
  shows "set module \<subseteq> set s" and "set after \<subseteq> set s"
proof -
  let ?s1 = "drop 9 s"
  let ?s2 = "dropWhile (\<lambda>c. c \<noteq> CHR ''/'') ?s1"
  let ?s3 = "drop 4 ?s2"
  let ?run = "takeWhile (\<lambda>c. c \<noteq> CHR 0x22) ?s3"
  let ?rest = "dropWhile (\<lambda>c. c \<noteq> CHR 0x22) ?s3"
  from assms obtain a where a: "find_last_proto ?run = Some a" and after: "after = a @ ?rest"
    and m: "module = takeWhile (\<lambda>c. c \<noteq> CHR ''/'') ?s1"
    by (auto simp: match_import_path_def Let_def split: if_splits option.splits)
  have s1: "set ?s1 \<subseteq> set s" by (rule set_drop_subset)
  have s3: "set ?s3 \<subseteq> set s"
    using s1 set_drop_subset [of 4 ?s2] set_dropWhileD [of _ "\<lambda>c. c \<noteq> CHR ''/''" ?s1] by blast
  show "set module \<subseteq> set s"
    using m s1 set_takeWhileD [of _ "\<lambda>c. c \<noteq> CHR ''/''" ?s1] by blast
  have "set a \<subseteq> set ?run" using a by (rule find_last_proto_set)
  then have "set a \<subseteq> set s"
    using s3 set_takeWhileD [of _ "\<lambda>c. c \<noteq> CHR 0x22" ?s3] by blast
  moreover have "set ?rest \<subseteq> set s"
    using s3 set_dropWhileD [of _ "\<lambda>c. c \<noteq> CHR 0x22" ?s3] by blast
  ultimately show "set after \<subseteq> set s"
    using after by simp
qed

lemma re_sub_import_set:
  "set (re_sub_import s) \<subseteq> set s \<union> set ''banyandb/v1/banyandb-.proto''"
proof -
  define K where "K = set ''banyandb/v1/banyandb-.proto''"
  have K: "set ''banyandb/v1/banyandb-'' \<subseteq> K" "set ''.proto'' \<subseteq> K"
    by (simp_all add: K_def)
  have "set (re_sub_import s) \<subseteq> set s \<union> K"
  proof (induction s rule: re_sub_import.induct)
    case 1
    then show ?case by simp
  next
    case (2 c cs)
    show ?case
    proof (cases "match_import_path (c # cs)")
      case None
      have "set (re_sub_import cs) \<subseteq> set cs \<union> K"
        using 2 None by simp
      then show ?thesis using None by auto
    next
      case (Some x)
      obtain module after where x: "x = (module, after)" by (cases x)
      have ih: "set (re_sub_import after) \<subseteq> set after \<union> K"
        using 2 Some x by simp
      have "set module \<subseteq> set (c # cs)" and "set after \<subseteq> set (c # cs)"
        using match_import_path_set Some x by blast+
      moreover have eq: "re_sub_import (c # cs) =
          ''banyandb/v1/banyandb-'' @ module @ ''.proto'' @ re_sub_import after"
        using Some x by simp
      have "set (re_sub_import (c # cs)) =
          set ''banyandb/v1/banyandb-'' \<union> (set module \<union> (set ''.proto'' \<union>
          set (re_sub_import after)))"
        by (simp only: eq set_append)
      ultimately show ?thesis
        using ih K by blast
    qed
  qed
  then show ?thesis
    by (simp add: K_def)
qed

lemma no_lf_transform: "no_lf s \<Longrightarrow> no_lf (transform_import_path (strip s))"
  using re_sub_import_set [of "strip s"] set_strip [of s]
  by (auto simp: no_lf_def transform_import_path_def)


lemma no_lf_filter_loop:
  "list_all no_lf ls \<Longrightarrow> list_all no_lf (filter_loop em er sk d ls)"
  by (induction ls arbitrary: sk d) (simp_all add: Let_def)

lemma no_lf_filter_excluded_definitions:
  "list_all no_lf ls \<Longrightarrow> list_all no_lf (filter_excluded_definitions ls em er)"
  by (simp add: filter_excluded_definitions_def no_lf_filter_loop)

lemma no_lf_scan_rpc_block:
  assumes "scan_rpc_block l bc n ls = Some (e, nx)"
    and "no_lf l" and "list_all no_lf bc" and "list_all no_lf ls"
  shows "list_all no_lf e \<and> list_all no_lf nx"
  using assms
  by (induction l bc n ls rule: scan_rpc_block.induct)
     (auto simp: Let_def no_lf_rpc_single_line split: if_splits)

lemma no_lf_remove_options_loop:
  "list_all no_lf ls \<Longrightarrow> list_all no_lf (remove_options_loop ls)"
proof (induction ls rule: remove_options_loop.induct)
  case 1
  then show ?case by simp
next
  case (2 line rest)
  from 2(4) have l: "no_lf line" and r: "list_all no_lf rest"
    by simp_all
  show ?case
  proof (cases "is_rpc_opener (strip line)")
    case False
    with 2 l r show ?thesis by simp
  next
    case True
    show ?thesis
    proof (cases "scan_rpc_block line [] 0 rest")
      case None
      with 2 True l r show ?thesis by (simp add: no_lf_rpc_single_line)
    next
      case (Some x)
      obtain e nx where x: "x = (e, nx)" by (cases x)
      have "list_all no_lf e \<and> list_all no_lf nx"
        using no_lf_scan_rpc_block [of line "[]" 0 rest e nx] Some x l r by simp
      moreover from this have "list_all no_lf (remove_options_loop nx)"
        using 2(2) [OF True Some x [symmetric]] by simp
      ultimately show ?thesis
        using True Some x by simp
    qed
  qed
qed

lemma no_lf_cleanup_loop:
  "list_all no_lf ls \<Longrightarrow> list_all no_lf (cleanup_loop ls)"
proof (induction ls rule: cleanup_loop.induct)
  case 1
  then show ?case by simp
next
  case (2 line rest)
  from 2(5) have l: "no_lf line" and r: "list_all no_lf rest"
    by simp_all
  define found where "found = dropWhile (\<lambda>l. strip l = []) rest"
  have unfold: "cleanup_loop (line # rest) =
     (if is_rpc_opener (strip line) then
        (case found of
           [] \<Rightarrow> line # cleanup_loop rest
         | closer # after \<Rightarrow>
             if strip closer = ''}'' then rpc_single_line line # cleanup_loop after
             else line # cleanup_loop rest)
      else line # cleanup_loop rest)"
    by (simp add: found_def)
  show ?case
  proof (cases "is_rpc_opener (strip line)")
    case False
    with 2(4) l r show ?thesis by simp
  next
    case True
    show ?thesis
    proof (cases found)
      case Nil
      then have "list_all no_lf (cleanup_loop rest)"
        using 2(1) [OF True] r by (simp add: found_def)
      then show ?thesis
        using True Nil l unfold by simp
    next
      case (Cons closer after)
      have "set (closer # after) \<subseteq> set rest"
        using set_dropWhileD [of _ "\<lambda>l. strip l = []" rest] Cons by (auto simp: found_def)
      then have a: "list_all no_lf after"
        using r by (auto simp: list_all_iff)
      show ?thesis
      proof (cases "strip closer = ''}''")
        case c: True
        have "list_all no_lf (cleanup_loop after)"
          using 2(2) [OF True _ c] Cons a by (simp add: found_def)
        then show ?thesis
          using True Cons c l unfold by (simp add: no_lf_rpc_single_line)
      next
        case c: False
        have "list_all no_lf (cleanup_loop rest)"
          using 2(3) [OF True _ c] Cons r by (simp add: found_def)
        then show ?thesis
          using True Cons c l unfold by simp
      qed
    qed
  qed
qed

lemma list_all_dropWhile: "list_all P xs \<Longrightarrow> list_all P (dropWhile Q xs)"
  by (induction xs) auto

lemma list_all_filter: "list_all P xs \<Longrightarrow> list_all P (filter Q xs)"
  by (induction xs) auto

lemma no_lf_process_body:
  assumes "list_all no_lf body"
  shows "list_all no_lf (process_body em er body)"
proof -
  let ?b1 = "rev (dropWhile blank (rev (dropWhile blank body)))"
  let ?b2 = "filter (\<lambda>line. \<not> list_ex (startswith (strip line)) line_prefixes \<and>
                             \<not> list_ex (contains (strip line)) line_contains) ?b1"
  let ?b3 = "if truthy_list em \<or> truthy_list er
             then filter_excluded_definitions ?b2 (or_empty em) (or_empty er) else ?b2"
  have "list_all no_lf ?b1"
    using assms by (simp add: list_all_dropWhile)
  then have "list_all no_lf ?b2"
    by (rule list_all_filter)
  then have "list_all no_lf ?b3"
    by (simp add: no_lf_filter_excluded_definitions)
  then have "list_all no_lf (cleanup_empty_rpc_blocks (remove_options_from_rpc_blocks ?b3))"
    by (simp add: cleanup_empty_rpc_blocks_def remove_options_from_rpc_blocks_def
        no_lf_cleanup_loop no_lf_remove_options_loop)
  then show ?thesis
    by (simp add: process_body_def Let_def)
qed

lemma no_lf_Nil: "no_lf []"
  by (simp add: no_lf_def)

lemma no_lf_merge_bodies:
  assumes "list_all (all_fields no_lf) ps"
  shows "list_all no_lf (merge_bodies em er i ps)"
  using assms
proof (induction ps arbitrary: i)
  case Nil
  then show ?case by simp
next
  case (Cons p ps)
  then have "list_all no_lf (p_body p)"
    by (simp add: all_fields_def)
  then have "list_all no_lf (process_body em er (p_body p))"
    by (rule no_lf_process_body)
  then show ?case
    using Cons by (simp add: Let_def no_lf_Nil)
qed

lemma no_lf_merge_header:
  assumes "all_fields no_lf first"
  shows "list_all no_lf (merge_header first)"
  using assms
  by (auto simp: merge_header_def emit_field_def all_fields_def no_lf_def split: option.splits)

lemma no_lf_merge_imports:
  assumes "list_all (all_fields no_lf) ps"
  shows "list_all no_lf (merge_imports ps cm)"
proof -
  have "no_lf t" if "t \<in> set (all_imports ps cm)" for t
  proof -
    from that obtain p imp where "p \<in> set ps" and "imp \<in> set (p_imports p)"
      and t: "t = transform_import_path (strip imp)"
      by (auto simp: all_imports_def)
    then have "no_lf imp"
      using assms by (auto simp: list_all_iff all_fields_def)
    then show ?thesis
      using t no_lf_transform by simp
  qed
  then have "list_all no_lf (sorted_imports ps cm)"
    by (simp add: sorted_imports_def list_all_iff)
  then show ?thesis
    by (simp add: merge_imports_def no_lf_def)
qed

lemma no_lf_parse_proto_file:
  assumes "parse_proto_file content = Inr r"
  shows "all_fields no_lf r"
proof -
  from assms obtain st where run:
      "parse_lines (split_nl content) (enumerate 0 (split_nl content)) init_state = Inr st"
    and r: "r = result st"
    by (auto simp: parse_proto_file_def Let_def split: sum.splits)
  show ?thesis
    using parse_lines_inv(3) [OF run, of no_lf] init_state_inv(3) split_nl_no_lf r by simp
qed

lemma no_lf_parse_all:
  "parse_all cs = Inr ps \<Longrightarrow> list_all (all_fields no_lf) ps"
  by (induction cs arbitrary: ps) (auto split: sum.splits dest: no_lf_parse_proto_file)

lemma last_not_dropped:
  assumes "rev (dropWhile P (rev xs)) \<noteq> []"
  shows "\<not> P (last (rev (dropWhile P (rev xs))))"
  using assms hd_dropWhile [of P "rev xs"] by (simp add: last_rev)

lemma takeWhile_rev_no_lf:
  assumes "no_lf t"
  shows "takeWhile (\<lambda>c. c \<noteq> LF) (rev t) = rev t"
proof (rule takeWhile_eq_all_conv [THEN iffD2])
  show "\<forall>x \<in> set (rev t). x \<noteq> LF"
    using assms by (auto simp: no_lf_def)
qed

lemma last_line_no_lf:
  assumes "no_lf l"
  shows "last_line l = l"
  unfolding last_line_def takeWhile_rev_no_lf [OF assms] by simp

lemma last_line_append_LF: "last_line (a @ LF # t) = last_line t"
proof (cases "no_lf t")
  case True
  have "takeWhile (\<lambda>c. c \<noteq> LF) (rev t @ LF # rev a) = rev t"
    using True by (auto simp: takeWhile_append no_lf_def intro: takeWhile_eq_all_conv [THEN iffD2])
  then show ?thesis
    unfolding last_line_def takeWhile_rev_no_lf [OF True] by simp
next
  case False
  then show ?thesis
    by (auto simp: last_line_def takeWhile_append no_lf_def)
qed

lemma last_line_join_nl:
  assumes "ls \<noteq> []"
  shows "last_line (join_nl ls) = last_line (last ls)"
  using assms by (induction ls rule: join_nl.induct) (simp_all add: last_line_append_LF)

lemma endswith_LF_last_line:
  assumes "endswith s [LF]"
  shows "s \<noteq> [] \<and> last_line s = []"
  using assms by (cases "rev s") (auto simp: endswith_def last_line_def)

lemma blank_empty: "blank []"
  by (simp add: blank_def strip_def lstrip_def rstrip_def)

text \<open>
  C9. For every non-empty list of document texts the merged text is some text \<open>s\<close>
  followed by one line terminator, where \<open>s\<close> does not end with a line terminator and,
  unless \<open>s\<close> is empty, the last line of \<open>s\<close> is not blank.
\<close>

theorem merged_text_termination:
  assumes "proto_contents \<noteq> []"
  shows "\<exists>s. merge_proto_files proto_contents current_module exclude_messages exclude_rpcs
                = Inr (s @ [LF]) \<and>
             \<not> endswith s [LF] \<and> (s \<noteq> [] \<longrightarrow> \<not> blank (last_line s))"
proof -
  obtain ps where ps: "parse_all proto_contents = Inr ps" and len: "length ps = length proto_contents"
    using parse_all_total by blast
  from assms len have ne: "ps \<noteq> []" by auto
  then have idx: "py_index ps 0 = Inr (ps ! 0)"
    by (simp add: py_index_def)
  define merged where "merged = merge_header (ps ! 0) @ merge_imports ps current_module @
                 merge_bodies exclude_messages exclude_rpcs 0 ps"
  define trimmed where "trimmed = rev (dropWhile blank (rev merged))"
  define s where "s = join_nl trimmed"
  have out: "merge_proto_files proto_contents current_module exclude_messages exclude_rpcs
               = Inr (s @ [LF])"
    using assms ps idx by (simp add: merge_proto_files_def Let_def s_def trimmed_def merged_def)
  have all: "list_all (all_fields no_lf) ps"
    using ps by (rule no_lf_parse_all)
  then have "all_fields no_lf (ps ! 0)"
    using ne by (simp add: list_all_length)
  then have "list_all no_lf merged"
    using all by (simp add: merged_def no_lf_merge_header no_lf_merge_imports no_lf_merge_bodies)
  then have nolf: "list_all no_lf trimmed"
    by (simp add: trimmed_def list_all_dropWhile)
  have nb: "\<not> blank (last_line s)" if "s \<noteq> []"
  proof -
    have t: "trimmed \<noteq> []"
      using that by (auto simp: s_def)
    then have "\<not> blank (last trimmed)"
      unfolding trimmed_def by (rule last_not_dropped)
    moreover have "no_lf (last trimmed)"
      using nolf t by (metis last_in_set list_all_iff)
    ultimately show ?thesis
      using last_line_join_nl [OF t] last_line_no_lf by (simp add: s_def)
  qed
  have "\<not> endswith s [LF]"
    using nb endswith_LF_last_line [of s] blank_empty by auto
  then show ?thesis
    using out nb by blast
qed

text \<open>The theorem at a document that ends with blank lines.\<close>

theorem merged_text_termination_witness:
  "[join_nl [''syntax = \"proto3\";'', ''package a;'', ''message M {}'', [], ''  '']] \<noteq> [] \<and>
   merge_proto_files
     [join_nl [''syntax = \"proto3\";'', ''package a;'', ''message M {}'', [], ''  '']]
     None None None
   = Inr (join_nl [''syntax = \"proto3\";'', [], ''package a;'', [], ''message M {}''] @ [LF]) \<and>
   \<not> endswith (join_nl [''syntax = \"proto3\";'', [], ''package a;'', [], ''message M {}'']) [LF] \<and>
   \<not> blank (last_line (join_nl [''syntax = \"proto3\";'', [], ''package a;'', [], ''message M {}'']))"
proof -
  let ?docs = "[join_nl [''syntax = \"proto3\";'', ''package a;'', ''message M {}'', [], ''  '']]"
  let ?s = "join_nl [''syntax = \"proto3\";'', [], ''package a;'', [], ''message M {}'']"
  have h: "merge_proto_files ?docs None None None = Inr (?s @ [LF])"
    by (simp add: merge_eval parse_eval string_eval rpc_eval config_eval)
  obtain s where s: "merge_proto_files ?docs None None None = Inr (s @ [LF])"
    and p: "\<not> endswith s [LF]" "s \<noteq> [] \<longrightarrow> \<not> blank (last_line s)"
    using merged_text_termination [of ?docs None None None] by auto
  from h s have "s = ?s"
    by simp
  then show ?thesis
    using h p by simp
qed

text \<open>When no line survives, the merged text is the line terminator alone.\<close>

lemma merged_text_of_empty_document:
  "merge_proto_files [[]] None None None = Inr [LF]"
  by (simp add: merge_eval parse_eval string_eval rpc_eval config_eval)

end
